theory Spec2Isabelle
  imports Main
begin

section \<open>Qt string and file primitives used by main.cpp\<close>

text \<open>
  Strings are byte lists. The conversions \<open>QString::fromLocal8Bit\<close>,
  \<open>QFile::decodeName\<close> and the implicit \<open>QByteArray\<close> to \<open>QString\<close> conversion are
  the identity on them.
\<close>

definition startsWith :: "string \<Rightarrow> char \<Rightarrow> bool" where
  "startsWith s c = (case s of [] \<Rightarrow> False | x # _ \<Rightarrow> x = c)"

text \<open>\<open>QByteArray::trimmed\<close> removes the ASCII white space \<open>\t \n \v \f \r\<close> and space
  from both ends.\<close>

definition ascii_isspace :: "char \<Rightarrow> bool" where
  "ascii_isspace c = (c = CHR 0x09 \<or> c = CHR 0x0A \<or> c = CHR 0x0B \<or> c = CHR 0x0C
     \<or> c = CHR 0x0D \<or> c = CHR 0x20)"

definition trimmed :: "string \<Rightarrow> string" where
  "trimmed s = rev (dropWhile ascii_isspace (rev (dropWhile ascii_isspace s)))"

text \<open>\<open>QString::split(sep, Qt::KeepEmptyParts)\<close> for a one-character separator: the
  empty string gives one empty field.\<close>

fun split_on :: "char \<Rightarrow> string \<Rightarrow> string list" where
  "split_on sep [] = [[]]"
| "split_on sep (c # cs) =
     (if c = sep then [] # split_on sep cs
      else (let fs = split_on sep cs in (c # hd fs) # tl fs))"

fun join :: "char \<Rightarrow> string list \<Rightarrow> string" where
  "join sep [] = []"
| "join sep [x] = x"
| "join sep (x # y # ys) = x @ sep # join sep (y # ys)"

text \<open>
  \<open>QString::section(sep, start, end)\<close> with the default flags: the string is split at
  \<open>sep\<close>, negative indexes count from the last field, and the fields \<open>start .. end\<close> are
  joined again with \<open>sep\<close>; an empty range gives the empty string.
\<close>

definition section_str :: "string \<Rightarrow> char \<Rightarrow> int \<Rightarrow> int \<Rightarrow> string" where
  "section_str s sep start_i end_i =
     (let sections = split_on sep s;
          sectionsSize = int (length sections);
          st = (if start_i < 0 then start_i + sectionsSize else start_i);
          en = (if end_i < 0 then end_i + sectionsSize else end_i)
      in if st \<ge> sectionsSize \<or> en < 0 \<or> st > en then []
         else join sep (take (nat (en + 1) - nat st) (drop (nat st) sections)))"

text \<open>\<open>QIODevice::readLine()\<close>: the bytes up to and including the next line feed, or all
  that is left; the second component is the rest of the file.\<close>

fun readLine :: "string \<Rightarrow> string \<times> string" where
  "readLine [] = ([], [])"
| "readLine (c # cs) =
     (if c = CHR 0x0A then ([c], cs)
      else (let (l, r) = readLine cs in (c # l, r)))"

text \<open>\<open>QFileInfo::fileName()\<close>: the path without its directory part, that is what
  follows the last slash.\<close>

definition fileName_of :: "string \<Rightarrow> string" where
  "fileName_of p = rev (takeWhile (\<lambda>c. c \<noteq> CHR ''/'') (rev p))"

section \<open>The command line front end (main.cpp)\<close>

datatype OptionalElementType = ENone | ERawPointer | EBoostOptional | EStdOptional

text \<open>What is written to stderr: \<open>Usage\<close> stands for a call of \<open>showHelp\<close>, \<open>Version\<close>
  for the version line alone.\<close>

datatype message = Usage | Version | ErrorReading string
  | CertLoadFailed string bool | CertOpenFailed string

text \<open>The local variables of \<open>main\<close>.\<close>

record locals =
  fileName :: "string option"
  outputFile :: string
  both :: bool
  impl :: bool
  outfileGiven :: bool
  server :: bool
  headerFile :: string
  serviceName :: string
  exportMacro :: string
  nameSpace :: string
  nsmapping :: "string \<rightharpoonup> string"
  optionalElementType :: OptionalElementType
  keepUnusedTypes :: bool
  importPathList :: "string list"
  useLocalFilesOnly :: bool
  helpOnMissing :: bool
  skipAsync :: bool
  skipSync :: bool
  skipAsyncJobs :: bool
  pkcs12File :: string
  pkcs12Password :: string

definition initial_locals :: locals where
  "initial_locals = \<lparr> fileName = None, outputFile = [], both = False, impl = False,
     outfileGiven = False, server = False, headerFile = [], serviceName = [],
     exportMacro = [], nameSpace = [], nsmapping = Map.empty,
     optionalElementType = ENone, keepUnusedTypes = False, importPathList = [],
     useLocalFilesOnly = False, helpOnMissing = False, skipAsync = False,
     skipSync = False, skipAsyncJobs = False, pkcs12File = [], pkcs12Password = [] \<rparr>"

text \<open>The world outside the process: the readable files with their contents, the
  absolute directory of a path, and whether a PKCS12 file loads with a password.\<close>

record env =
  files :: "string \<rightharpoonup> string"
  absolutePath :: "string \<Rightarrow> string"
  importPkcs12 :: "string \<Rightarrow> string \<Rightarrow> bool"

text \<open>Lines 175 to 186: the loop over the lines of a mapping file.\<close>

function read_mapping_file :: "string \<Rightarrow> (string \<rightharpoonup> string) \<Rightarrow> (string \<rightharpoonup> string)" where
  "read_mapping_file content m =
     (if content = [] then m
      else (let mapping = trimmed (fst (readLine content));
                rest = snd (readLine content)
            in if startsWith mapping CHR ''#'' then read_mapping_file rest m
               else (let uri = section_str mapping CHR ''='' 0 (- 2);
                         target = section_str mapping CHR ''='' (- 1) (- 1)
                     in if uri \<noteq> [] \<and> target \<noteq> []
                        then read_mapping_file rest (m(uri \<mapsto> target))
                        else read_mapping_file rest m)))"
  by pat_completeness auto
termination
proof -
  have shorter: "length (snd (readLine content)) < length content"
    if "content \<noteq> []" for content
    using that
  proof (induction content)
    case Nil
    then show ?case by simp
  next
    case (Cons c cs)
    show ?case
    proof (cases "cs = []")
      case True
      then show ?thesis by simp
    next
      case False
      with Cons.IH have "length (snd (readLine cs)) < length cs" by simp
      then show ?thesis by (simp add: case_prod_beta)
    qed
  qed
  show ?thesis
    by (relation "measure (\<lambda>(content, m). length content)") (auto simp: shorter)
qed

declare read_mapping_file.simps [simp del]

datatype step_result = Stop "message list" int | Next "string list" locals

text \<open>An option that takes a value: \<open>++arg; if (!argv[arg]) { showHelp; return 1; }\<close>.\<close>

definition with_value :: "string list \<Rightarrow> (string \<Rightarrow> string list \<Rightarrow> step_result) \<Rightarrow> step_result" where
  "with_value rest k = (case rest of [] \<Rightarrow> Stop [Usage] 1 | v # rest' \<Rightarrow> k v rest')"

text \<open>Lines 159 to 191.\<close>

definition namespaceMapping_option :: "env \<Rightarrow> string \<Rightarrow> string list \<Rightarrow> locals \<Rightarrow> step_result" where
  "namespaceMapping_option e mapping rest' s =
     (if startsWith mapping CHR ''@'' then
        (case files e (tl mapping) of
           None \<Rightarrow> Stop [ErrorReading (tl mapping), Usage] 1
         | Some content \<Rightarrow> Next rest' (s\<lparr>nsmapping := read_mapping_file content (nsmapping s)\<rparr>))
      else
        (let uri = section_str mapping CHR ''='' 0 (- 2);
             target = section_str mapping CHR ''='' (- 1) (- 1)
         in Next rest' (s\<lparr>nsmapping := (nsmapping s)(uri \<mapsto> target)\<rparr>)))"

text \<open>Lines 192 to 205.\<close>

definition optional_element_type_option :: "string \<Rightarrow> string list \<Rightarrow> locals \<Rightarrow> step_result" where
  "optional_element_type_option optType rest' s =
     (if optType = ''raw-pointer'' then Next rest' (s\<lparr>optionalElementType := ERawPointer\<rparr>)
      else if optType = ''boost-optional'' then Next rest' (s\<lparr>optionalElementType := EBoostOptional\<rparr>)
      else if optType = ''std-optional'' then Next rest' (s\<lparr>optionalElementType := EStdOptional\<rparr>)
      else Next rest' s)"

text \<open>One turn of the loop of lines 104 to 249: \<open>opt\<close> is \<open>argv[arg]\<close>, \<open>rest\<close> the
  arguments after it. The result is an early \<open>return\<close> or the arguments still to read
  with the updated variables. The build is one with SSL, where the two \<open>-pkcs12\<close>
  options exist.\<close>

definition step :: "env \<Rightarrow> string \<Rightarrow> string list \<Rightarrow> locals \<Rightarrow> step_result" where
  "step e opt rest s =
     (if opt = ''-h'' \<or> opt = ''-help'' then Stop [Usage] 0
      else if opt = ''-impl'' then
        with_value rest (\<lambda>v rest'. Next rest' (s\<lparr>impl := True, headerFile := v\<rparr>))
      else if opt = ''-both'' then
        with_value rest (\<lambda>v rest'. Next rest' (s\<lparr>both := True, outputFile := v\<rparr>))
      else if opt = ''-server'' then Next rest (s\<lparr>server := True\<rparr>)
      else if opt = ''-v'' \<or> opt = ''-version'' then Stop [Version] 0
      else if opt = ''-o'' \<or> opt = ''-output'' then
        with_value rest (\<lambda>v rest'. Next rest' (s\<lparr>outfileGiven := True, outputFile := v\<rparr>))
      else if opt = ''-s'' \<or> opt = ''-service'' then
        with_value rest (\<lambda>v rest'. Next rest' (s\<lparr>serviceName := v\<rparr>))
      else if opt = ''-exportMacro'' then
        with_value rest (\<lambda>v rest'. Next rest' (s\<lparr>exportMacro := v\<rparr>))
      else if opt = ''-namespace'' then
        with_value rest (\<lambda>v rest'. Next rest' (s\<lparr>nameSpace := v\<rparr>))
      else if opt = ''-namespaceMapping'' then
        with_value rest (\<lambda>v rest'. namespaceMapping_option e v rest' s)
      else if opt = ''-optional-element-type'' then
        with_value rest (\<lambda>v rest'. optional_element_type_option v rest' s)
      else if opt = ''-keep-unused-types'' then Next rest (s\<lparr>keepUnusedTypes := True\<rparr>)
      else if opt = ''-import-path'' then
        with_value rest (\<lambda>v rest'. Next rest' (s\<lparr>importPathList := importPathList s @ [v]\<rparr>))
      else if opt = ''-use-local-files-only'' then Next rest (s\<lparr>useLocalFilesOnly := True\<rparr>)
      else if opt = ''-help-on-missing'' then Next rest (s\<lparr>helpOnMissing := True\<rparr>)
      else if opt = ''-pkcs12file'' then
        with_value rest (\<lambda>v rest'. Next rest' (s\<lparr>pkcs12File := v\<rparr>))
      else if opt = ''-pkcs12password'' then
        with_value rest (\<lambda>v rest'. Next rest' (s\<lparr>pkcs12Password := v\<rparr>))
      else if opt = ''-no-sync'' then Next rest (s\<lparr>skipSync := True\<rparr>)
      else if opt = ''-no-async'' then Next rest (s\<lparr>skipAsync := True\<rparr>)
      else if opt = ''-no-async-jobs'' then Next rest (s\<lparr>skipAsyncJobs := True\<rparr>)
      else if fileName s = None then Next rest (s\<lparr>fileName := Some opt\<rparr>)
      else Stop [Usage] 1)"

text \<open>The loop itself: it ends when \<open>arg\<close> reaches \<open>argc\<close> or at an early
  \<open>return\<close>.\<close>

datatype parse_result = Exit "message list" int | Continue locals

function parse_args :: "env \<Rightarrow> string list \<Rightarrow> locals \<Rightarrow> parse_result" where
  "parse_args e [] s = Continue s"
| "parse_args e (opt # rest) s =
     (case step e opt rest s of
        Stop msgs rc \<Rightarrow> Exit msgs rc
      | Next rest' s' \<Rightarrow> parse_args e rest' s')"
  by pat_completeness auto
termination
proof -
  have consumed: "length rest' \<le> length rest"
    if "step e opt rest s = Next rest' s'" for e opt rest s rest' s'
    using that
    by (auto simp: step_def with_value_def namespaceMapping_option_def
        optional_element_type_option_def Let_def
        split: if_splits list.splits option.splits)
  show ?thesis
    by (relation "measure (\<lambda>(e, args, s). length args)")
      (auto dest: consumed)
qed

text \<open>The singleton \<open>Settings\<close> as lines 264 to 296 fill it.\<close>

record Settings =
  generateHeader :: bool
  generateImplementation :: bool
  headerFileName :: string
  implementationFileName :: string
  generateServerCode :: bool
  outputDirectory :: string
  wsdlFile :: string
  wantedService :: string
  exportDeclaration :: string
  settingsNameSpace :: string
  namespaceMapping :: "string \<rightharpoonup> string"
  settingsOptionalElementType :: OptionalElementType
  settingsKeepUnusedTypes :: bool
  settingsImportPathList :: "string list"
  settingsUseLocalFilesOnly :: bool
  settingsHelpOnMissing :: bool
  settingsSkipSync :: bool
  settingsSkipAsync :: bool
  settingsSkipAsyncJobs :: bool

definition configure :: "env \<Rightarrow> string \<Rightarrow> locals \<Rightarrow> Settings" where
  "configure e wsdl s =
     \<lparr> generateHeader = (if both s then True else if impl s then False else True),
       generateImplementation = (if both s then True else if impl s then True else False),
       headerFileName =
         (if both s then fileName_of (outputFile s) @ ''.h''
          else if impl s then headerFile s
          else fileName_of (outputFile s)),
       implementationFileName =
         (if both s then fileName_of (outputFile s) @ ''.cpp''
          else if impl s then fileName_of (outputFile s)
          else ''UNUSED''),
       generateServerCode = server s,
       outputDirectory = absolutePath e (outputFile s),
       wsdlFile = wsdl,
       wantedService = serviceName s,
       exportDeclaration = exportMacro s,
       settingsNameSpace = nameSpace s,
       namespaceMapping = nsmapping s,
       settingsOptionalElementType = optionalElementType s,
       settingsKeepUnusedTypes = keepUnusedTypes s,
       settingsImportPathList = importPathList s,
       settingsUseLocalFilesOnly = useLocalFilesOnly s,
       settingsHelpOnMissing = helpOnMissing s,
       settingsSkipSync = skipSync s,
       settingsSkipAsync = skipAsync s,
       settingsSkipAsyncJobs = skipAsyncJobs s \<rparr>"

text \<open>Lines 299 to 329: the client certificate, in a build with SSL.\<close>

definition load_certificate :: "env \<Rightarrow> locals \<Rightarrow> message list option" where
  "load_certificate e s =
     (if pkcs12File s \<noteq> [] then
        (case files e (pkcs12File s) of
           Some certFile \<Rightarrow>
             (if \<not> importPkcs12 e certFile (pkcs12Password s)
              then Some [CertLoadFailed (pkcs12File s) (pkcs12Password s \<noteq> [])]
              else None)
         | None \<Rightarrow> Some [CertOpenFailed (pkcs12File s)])
      else None)"

text \<open>\<open>main\<close>: \<open>Exited\<close> is a \<open>return\<close> before the compiler is scheduled, \<open>Started\<close>
  the run of \<open>KWSDL::Compiler::run\<close> under the settings given.\<close>

datatype outcome = Exited "message list" int | Started Settings

definition main :: "env \<Rightarrow> string list \<Rightarrow> outcome" where
  "main e argv =
     (case parse_args e argv initial_locals of
        Exit msgs rc \<Rightarrow> Exited msgs rc
      | Continue s \<Rightarrow>
          (case fileName s of
             None \<Rightarrow> Exited [Usage] 1
           | Some wsdl \<Rightarrow>
               (if both s \<and> (outfileGiven s \<or> impl s) then Exited [Usage] 1
                else (case load_certificate e s of
                        Some msgs \<Rightarrow> Exited msgs 1
                      | None \<Rightarrow> Started (configure e wsdl s)))))"



section \<open>The mapping file format as the specification words it\<close>

text \<open>What follows the final occurrence of \<open>c\<close> in \<open>s\<close> (all of \<open>s\<close> when there is
  none), and what precedes that occurrence.\<close>

definition after_final :: "char \<Rightarrow> string \<Rightarrow> string" where
  "after_final c s = rev (takeWhile (\<lambda>x. x \<noteq> c) (rev s))"

definition before_final :: "char \<Rightarrow> string \<Rightarrow> string" where
  "before_final c s = rev (tl (dropWhile (\<lambda>x. x \<noteq> c) (rev s)))"

text \<open>One line of a mapping file: trimmed; ignored when it starts with \<open>#\<close>; otherwise
  the URI is everything before the final \<open>=\<close> and the code everything after it, and
  the pair counts only when both are non-empty.\<close>

definition spec_line_entry :: "string \<Rightarrow> (string \<times> string) option" where
  "spec_line_entry line =
     (let t = trimmed line in
      if startsWith t CHR ''#'' then None
      else if CHR ''='' \<notin> set t then None
      else (let uri = before_final CHR ''='' t; code = after_final CHR ''='' t
            in if uri \<noteq> [] \<and> code \<noteq> [] then Some (uri, code) else None))"

definition spec_add_line :: "(string \<rightharpoonup> string) \<Rightarrow> string \<Rightarrow> (string \<rightharpoonup> string)" where
  "spec_add_line m line =
     (case spec_line_entry line of None \<Rightarrow> m | Some (uri, code) \<Rightarrow> m(uri \<mapsto> code))"

text \<open>A literal mapping split at its final \<open>=\<close>; without any \<open>=\<close> the URI part is
  empty.\<close>

definition split_final_eq :: "string \<Rightarrow> string \<times> string" where
  "split_final_eq s =
     (if CHR ''='' \<in> set s then (before_final CHR ''='' s, after_final CHR ''='' s)
      else ([], s))"


section \<open>The Dependency Orderer (specification, section 4.7)\<close>

text \<open>Modelled from the spec: the type graph handed to the Dependency Orderer, whose code is not
  under src/. A TypeNode is named by its (namespace code, local name) pair, here any
  linearly ordered type of identifiers; an edge \<open>(c, t)\<close> says that a member of the
  container \<open>c\<close> has the type \<open>t\<close>, and its kind is the list that holds it.\<close>

record 'a type_graph =
  nodes :: "'a list"
  by_value :: "('a \<times> 'a) list"
  by_ref :: "('a \<times> 'a) list"

text \<open>Modelled from the spec: an edge closes a cycle when its container is reachable from its
  member type along by-value edges; a type containing itself is the one-node case.\<close>

definition closes_cycle :: "('a \<times> 'a) list \<Rightarrow> 'a \<times> 'a \<Rightarrow> bool" where
  "closes_cycle E e = (snd e = fst e \<or> (snd e, fst e) \<in> (set E)\<^sup>+)"

text \<open>Modelled from the spec: cycle detection, the by-value edges that lie on a cycle.\<close>

definition cycle_edges :: "('a \<times> 'a) list \<Rightarrow> ('a \<times> 'a) list" where
  "cycle_edges E = filter (closes_cycle E) E"

text \<open>Modelled from the spec: the key of an edge, the smallest (namespace code, local name) pair
  among its endpoints.\<close>

definition edge_key :: "'a::linorder \<times> 'a \<Rightarrow> 'a" where
  "edge_key e = min (fst e) (snd e)"

text \<open>Modelled from the spec: selection of the cycle edge with the smallest key, the first such
  in member order.\<close>

fun select_edge :: "('a::linorder \<times> 'a) \<Rightarrow> ('a \<times> 'a) list \<Rightarrow> 'a \<times> 'a" where
  "select_edge best [] = best"
| "select_edge best (e # es) = select_edge (if edge_key e < edge_key best then e else best) es"

text \<open>Modelled from the spec: cycle handling. While a cycle is detected, the selected edge alone is
  rewritten from by value to by reference, and detection runs again.\<close>

function break_cycles :: "('a::linorder) type_graph \<Rightarrow> 'a type_graph" where
  "break_cycles g =
     (case cycle_edges (by_value g) of
        [] \<Rightarrow> g
      | e # es \<Rightarrow>
          break_cycles (g\<lparr>by_value := remove1 (select_edge e es) (by_value g),
                          by_ref := by_ref g @ [select_edge e es]\<rparr>))"
  by pat_completeness auto
termination
proof -
  have sel: "select_edge b es \<in> set (b # es)" for b :: "'a \<times> 'a" and es
    by (induction es arbitrary: b) auto
  have "length (remove1 (select_edge e es) E) < length E"
    if "cycle_edges E = e # es" for E and e :: "'a \<times> 'a" and es
  proof -
    have "select_edge e es \<in> set (cycle_edges E)" using sel [of e es] that by simp
    then have "select_edge e es \<in> set E" by (simp add: cycle_edges_def)
    then show ?thesis by (simp add: length_remove1) (cases E; simp)
  qed
  then show ?thesis
    by (relation "measure (\<lambda>g. length (by_value g))") auto
qed

declare break_cycles.simps [simp del]

text \<open>Modelled from the spec: the types a container holds by value.\<close>

definition members :: "('a \<times> 'a) list \<Rightarrow> 'a \<Rightarrow> 'a list" where
  "members E c = map snd (filter (\<lambda>e. fst e = c) E)"

text \<open>Modelled from the spec: a type can be emitted once none of its by-value members is still
  waiting.\<close>

definition ready :: "('a \<times> 'a) list \<Rightarrow> 'a list \<Rightarrow> 'a \<Rightarrow> bool" where
  "ready E pending n = list_all (\<lambda>t. t \<notin> set pending) (members E n)"

text \<open>Modelled from the spec: the topological sort of the by-value subgraph. \<open>None\<close> is a sort
  that met a cycle.\<close>

function topo_order :: "('a \<times> 'a) list \<Rightarrow> 'a list \<Rightarrow> 'a list option" where
  "topo_order E pending =
     (if pending = [] then Some []
      else (case filter (ready E pending) pending of
              [] \<Rightarrow> None
            | n # _ \<Rightarrow> map_option ((#) n) (topo_order E (removeAll n pending))))"
  by pat_completeness auto
termination
proof -
  have "length (removeAll n pending) < length pending"
    if "filter (ready E pending) pending = n # ns" for E and pending :: "'a list" and n ns
  proof -
    have "n \<in> set (filter (ready E pending) pending)" using that by simp
    then have "n \<in> set pending" by simp
    then show ?thesis by (rule length_removeAll_less)
  qed
  then show ?thesis
    by (relation "measure (\<lambda>(E, pending). length pending)") auto
qed

declare topo_order.simps [simp del]

text \<open>Modelled from the spec: the Dependency Orderer, cycle handling followed by the sort.\<close>

definition dependency_order :: "('a::linorder) type_graph \<Rightarrow> 'a type_graph \<times> 'a list option" where
  "dependency_order g =
     (let g' = break_cycles g in (g', topo_order (by_value g') (nodes g')))"

text \<open>In an emission order, \<open>t\<close> comes strictly before \<open>c\<close>.\<close>

definition emitted_before :: "'a \<Rightarrow> 'a \<Rightarrow> 'a list \<Rightarrow> bool" where
  "emitted_before t c ord = (c \<in> set (tl (dropWhile (\<lambda>x. x \<noteq> t) ord)))"

text \<open>A walk along edges from \<open>a\<close> to \<open>b\<close>; a cycle is a non-empty walk from a node to
  itself.\<close>

fun walk :: "'a \<Rightarrow> ('a \<times> 'a) list \<Rightarrow> 'a \<Rightarrow> bool" where
  "walk a [] b = (a = b)"
| "walk a (e # es) b = (fst e = a \<and> walk (snd e) es b)"

section \<open>The Schema Document Store and the import closure (specification, sections 4.1, 4.3, 7)\<close>












section \<open>Example inputs\<close>

definition example_mapping_file :: string where
  "example_mapping_file =
     ''# codes'' @ [CHR 0x0A] @ '' http://a/?x=1=A  '' @ [CHR 0x0D, CHR 0x0A]
     @ ''nocode='' @ [CHR 0x0A] @ ''=nouri'' @ [CHR 0x0A] @ ''plain'' @ [CHR 0x0A]
     @ [CHR 0x0A] @ ''urn:b=B''"

definition example_env :: env where
  "example_env = \<lparr> files = [''ns.map'' \<mapsto> example_mapping_file],
     absolutePath = (\<lambda>p. ''/work'' @ (if CHR ''/'' \<in> set p then ''/'' @ before_final CHR ''/'' p else [])),
     importPkcs12 = (\<lambda>certFile password. True) \<rparr>"

definition example_graph :: "nat type_graph" where
  "example_graph = \<lparr> nodes = [1, 2, 3, 4], by_value = [(1, 2), (2, 3), (3, 1), (3, 4), (4, 4)], by_ref = [] \<rparr>"

definition example_acyclic_graph :: "nat type_graph" where
  "example_acyclic_graph = \<lparr> nodes = [1, 2, 3, 4], by_value = [(1, 2), (2, 3), (1, 3), (3, 4)], by_ref = [] \<rparr>"




section \<open>Facts about the string primitives\<close>

lemma split_on_not_Nil: "split_on sep s \<noteq> []"
  by (induction s) (auto simp: Let_def)

lemma split_on_absent: "sep \<notin> set s \<Longrightarrow> split_on sep s = [s]"
  by (induction s) (auto simp: Let_def)

lemma split_on_append: "sep \<notin> set u \<Longrightarrow> split_on sep (u @ sep # t) = u # split_on sep t"
  by (induction u) (auto simp: Let_def)

lemma split_on_final: "sep \<notin> set t \<Longrightarrow> split_on sep (u @ sep # t) = split_on sep u @ [t]"
proof (induction u)
  case Nil
  then show ?case by (simp add: split_on_absent)
next
  case (Cons c u)
  then show ?case by (simp add: Let_def split_on_not_Nil)
qed

lemma join_snoc: "fs \<noteq> [] \<Longrightarrow> join sep (fs @ [t]) = join sep fs @ sep # t"
  by (induction sep fs rule: join.induct) auto

lemma join_cons_hd: "fs \<noteq> [] \<Longrightarrow> join sep ((c # hd fs) # tl fs) = c # join sep fs"
  by (cases fs; cases "tl fs") auto

lemma join_split_on: "join sep (split_on sep s) = s"
proof (induction s)
  case Nil
  then show ?case by simp
next
  case (Cons c s)
  show ?case
  proof (cases "c = sep")
    case True
    then show ?thesis using Cons split_on_not_Nil [of sep s]
      by (cases "split_on sep s") auto
  next
    case False
    then show ?thesis using Cons by (simp add: Let_def join_cons_hd split_on_not_Nil)
  qed
qed

lemma section_absent:
  assumes "sep \<notin> set s"
  shows "section_str s sep 0 (- 2) = []" and "section_str s sep (- 1) (- 1) = s"
  using assms by (simp_all add: section_str_def split_on_absent)

lemma section_final:
  assumes "sep \<notin> set t"
  shows "section_str (u @ sep # t) sep 0 (- 2) = u"
    and "section_str (u @ sep # t) sep (- 1) (- 1) = t"
proof -
  let ?fs = "split_on sep u"
  have fs: "split_on sep (u @ sep # t) = ?fs @ [t]" using assms by (rule split_on_final)
  have pos: "0 < length ?fs" using split_on_not_Nil [of sep u] by simp
  have "nat (int (length ?fs) + 1 - 2 + 1) = length ?fs" by simp
  then show "section_str (u @ sep # t) sep 0 (- 2) = u"
    using pos by (simp add: section_str_def fs Let_def join_split_on)
  have "nat (int (length ?fs) + 1 - 1) = length ?fs" by simp
  then show "section_str (u @ sep # t) sep (- 1) (- 1) = t"
    by (simp add: section_str_def fs Let_def)
qed

lemma final_decomposition:
  assumes "c \<in> set s"
  shows "s = before_final c s @ c # after_final c s" and "c \<notin> set (after_final c s)"
proof -
  let ?P = "\<lambda>x. x \<noteq> c"
  from assms have ne: "dropWhile ?P (rev s) \<noteq> []" by (auto simp: dropWhile_eq_Nil_conv)
  then have "hd (dropWhile ?P (rev s)) = c"
    using hd_dropWhile [of ?P "rev s"] by simp
  with ne have "dropWhile ?P (rev s) = c # tl (dropWhile ?P (rev s))"
    by (cases "dropWhile ?P (rev s)") auto
  then have "rev s = takeWhile ?P (rev s) @ c # tl (dropWhile ?P (rev s))"
    using takeWhile_dropWhile_id [of ?P "rev s"] by simp
  then have "rev (rev s) = rev (takeWhile ?P (rev s) @ c # tl (dropWhile ?P (rev s)))"
    by (rule arg_cong)
  then show "s = before_final c s @ c # after_final c s"
    by (simp add: before_final_def after_final_def)
  show "c \<notin> set (after_final c s)"
    using set_takeWhileD [of c ?P "rev s"] by (auto simp: after_final_def)
qed

lemma section_before_final: "c \<in> set s \<Longrightarrow> section_str s c 0 (- 2) = before_final c s"
  using final_decomposition [of c s] section_final(1) [of c "after_final c s" "before_final c s"]
  by simp

lemma section_after_final: "section_str s c (- 1) (- 1) = after_final c s"
proof (cases "c \<in> set s")
  case True
  then show ?thesis
    using final_decomposition [of c s] section_final(2) [of c "after_final c s" "before_final c s"]
    by simp
next
  case False
  then have "takeWhile (\<lambda>x. x \<noteq> c) (rev s) = rev s"
    by (intro takeWhile_eq_all_conv[THEN iffD2]) auto
  then have "after_final c s = s" by (simp only: after_final_def rev_rev_ident)
  with False show ?thesis by (simp add: section_absent)
qed

lemma trimmed_line_feed: "trimmed (l @ [CHR 0x0A]) = trimmed l"
proof (cases "\<forall>x\<in>set l. ascii_isspace x")
  case True
  have nl: "ascii_isspace CHR 0x0A" by (simp add: ascii_isspace_def)
  from True have d1: "dropWhile ascii_isspace l = []" by simp
  from True nl have d2: "dropWhile ascii_isspace (l @ [CHR 0x0A]) = []" by simp
  show ?thesis unfolding trimmed_def d1 d2 by (rule refl)
next
  case False
  then obtain x where "x \<in> set l" "\<not> ascii_isspace x" by blast
  then have "dropWhile ascii_isspace (l @ [CHR 0x0A]) = dropWhile ascii_isspace l @ [CHR 0x0A]"
    by (rule dropWhile_append1)
  then show ?thesis by (simp add: trimmed_def ascii_isspace_def)
qed

lemma readLine_cases:
  "(\<exists>l. CHR 0x0A \<notin> set l \<and> content = l @ CHR 0x0A # snd (readLine content)
        \<and> fst (readLine content) = l @ [CHR 0x0A])
   \<or> (CHR 0x0A \<notin> set content \<and> readLine content = (content, []))"
proof (induction content)
  case Nil
  then show ?case by simp
next
  case (Cons c cs)
  show ?case
  proof (cases "c = CHR 0x0A")
    case True
    then show ?thesis by auto
  next
    case False
    from Cons show ?thesis
    proof
      assume "\<exists>l. CHR 0x0A \<notin> set l \<and> cs = l @ CHR 0x0A # snd (readLine cs)
        \<and> fst (readLine cs) = l @ [CHR 0x0A]"
      then obtain l where l: "CHR 0x0A \<notin> set l" "cs = l @ CHR 0x0A # snd (readLine cs)"
        "fst (readLine cs) = l @ [CHR 0x0A]" by blast
      have "CHR 0x0A \<notin> set (c # l) \<and> c # cs = (c # l) @ CHR 0x0A # snd (readLine (c # cs))
        \<and> fst (readLine (c # cs)) = (c # l) @ [CHR 0x0A]"
        using False l by (simp add: case_prod_beta)
      then show ?thesis by blast
    next
      assume "CHR 0x0A \<notin> set cs \<and> readLine cs = (cs, [])"
      then show ?thesis using False by simp
    qed
  qed
qed

lemma source_line_is_spec_line:
  "(let mapping = trimmed line in
      if startsWith mapping CHR ''#'' then m
      else (let uri = section_str mapping CHR ''='' 0 (- 2);
                target = section_str mapping CHR ''='' (- 1) (- 1)
            in if uri \<noteq> [] \<and> target \<noteq> [] then m(uri \<mapsto> target) else m))
   = spec_add_line m line"
  by (simp add: spec_add_line_def spec_line_entry_def Let_def section_absent
      section_before_final section_after_final)

lemma read_mapping_file_lines:
  "read_mapping_file content m = foldl spec_add_line m (split_on CHR 0x0A content)"
proof (induction content arbitrary: m rule: length_induct)
  case (1 content)
  show ?case
  proof (cases "content = []")
    case True
    then show ?thesis
      by (simp add: read_mapping_file.simps spec_add_line_def spec_line_entry_def
          trimmed_def startsWith_def)
  next
    case False
    let ?rest = "snd (readLine content)"
    have unfold: "read_mapping_file content m
        = read_mapping_file ?rest (spec_add_line m (fst (readLine content)))"
      using False source_line_is_spec_line [of "fst (readLine content)" m, symmetric]
      by (subst read_mapping_file.simps) (simp add: Let_def)
    from readLine_cases [of content] show ?thesis
    proof
      assume "\<exists>l. CHR 0x0A \<notin> set l \<and> content = l @ CHR 0x0A # ?rest
        \<and> fst (readLine content) = l @ [CHR 0x0A]"
      then obtain l where l: "CHR 0x0A \<notin> set l" "content = l @ CHR 0x0A # ?rest"
        "fst (readLine content) = l @ [CHR 0x0A]" by blast
      have "length ?rest < length content" using l(2)
        by (metis length_append length_Cons less_add_Suc2 add_Suc_right)
      with 1 have IH: "read_mapping_file ?rest m' = foldl spec_add_line m' (split_on CHR 0x0A ?rest)"
        for m' by blast
      have same: "spec_add_line m (l @ [CHR 0x0A]) = spec_add_line m l"
        by (simp add: spec_add_line_def spec_line_entry_def trimmed_line_feed)
      have "split_on CHR 0x0A content = l # split_on CHR 0x0A ?rest"
        using l(1) split_on_append [of "CHR 0x0A" l ?rest] l(2) by simp
      then show ?thesis using unfold IH l(3) same by simp
    next
      assume a: "CHR 0x0A \<notin> set content \<and> readLine content = (content, [])"
      then have "split_on CHR 0x0A content = [content]" by (simp add: split_on_absent)
      moreover have "read_mapping_file [] m' = m'" for m'
        by (simp add: read_mapping_file.simps)
      ultimately show ?thesis using unfold a by simp
    qed
  qed
qed

section \<open>Facts about the argument loop\<close>




lemma step_namespaceMapping:
  "step e ''-namespaceMapping'' (v # rest) s = namespaceMapping_option e v rest s"
  by (simp add: step_def with_value_def)

lemma step_optional_element_type:
  "step e ''-optional-element-type'' (v # rest) s = optional_element_type_option v rest s"
  by (simp add: step_def with_value_def)











































section \<open>The spec-worded line entry, characterised\<close>

lemma after_final_absent: "c \<notin> set s \<Longrightarrow> after_final c s = s"
  using section_absent(2) [of c s] section_after_final [of s c] by simp

lemma final_unique:
  assumes "c \<notin> set t"
  shows "before_final c (u @ c # t) = u" and "after_final c (u @ c # t) = t"
  using assms section_final [of c t u] section_before_final [of c "u @ c # t"]
    section_after_final [of "u @ c # t" c]
  by simp_all

lemma spec_line_entry_iff:
  "spec_line_entry line = Some (uri, code) \<longleftrightarrow>
     (\<not> startsWith (trimmed line) CHR ''#'' \<and> trimmed line = uri @ CHR ''='' # code
        \<and> CHR ''='' \<notin> set code \<and> uri \<noteq> [] \<and> code \<noteq> [])"
proof
  assume a: "spec_line_entry line = Some (uri, code)"
  let ?t = "trimmed line"
  from a have h: "\<not> startsWith ?t CHR ''#''" and eq: "CHR ''='' \<in> set ?t"
    and u: "uri = before_final CHR ''='' ?t" and c: "code = after_final CHR ''='' ?t"
    and ne: "uri \<noteq> []" "code \<noteq> []"
    by (auto simp: spec_line_entry_def Let_def split: if_splits)
  from final_decomposition [OF eq] u c h ne
  show "\<not> startsWith ?t CHR ''#'' \<and> ?t = uri @ CHR ''='' # code
        \<and> CHR ''='' \<notin> set code \<and> uri \<noteq> [] \<and> code \<noteq> []" by simp
next
  assume "\<not> startsWith (trimmed line) CHR ''#'' \<and> trimmed line = uri @ CHR ''='' # code
        \<and> CHR ''='' \<notin> set code \<and> uri \<noteq> [] \<and> code \<noteq> []"
  then have h: "\<not> startsWith (trimmed line) CHR ''#''"
    and t: "trimmed line = uri @ CHR ''='' # code"
    and c: "CHR ''='' \<notin> set code" and ne: "uri \<noteq> []" "code \<noteq> []" by blast+
  have "before_final CHR ''='' (trimmed line) = uri" "after_final CHR ''='' (trimmed line) = code"
    unfolding t using final_unique [OF c, of uri] by simp_all
  moreover from t have "CHR ''='' \<in> set (trimmed line)" by simp
  ultimately show "spec_line_entry line = Some (uri, code)"
    using h ne unfolding spec_line_entry_def Let_def by simp
qed

section \<open>Facts about the Dependency Orderer\<close>

lemma select_edge_mem: "select_edge b es \<in> set (b # es)"
  by (induction es arbitrary: b) auto

lemma cycle_edges_Nil_iff: "cycle_edges E = [] \<longleftrightarrow> acyclic (set E)"
proof
  assume a: "cycle_edges E = []"
  show "acyclic (set E)"
  proof (rule acyclicI, rule allI, rule notI)
    fix x assume "(x, x) \<in> (set E)\<^sup>+"
    then obtain z where z: "(x, z) \<in> set E" "(z, x) \<in> (set E)\<^sup>*" by (meson tranclD)
    then have "closes_cycle E (x, z)"
      by (auto simp: closes_cycle_def rtrancl_eq_or_trancl)
    with z(1) have "(x, z) \<in> set (cycle_edges E)" by (simp add: cycle_edges_def)
    with a show False by simp
  qed
next
  assume a: "acyclic (set E)"
  show "cycle_edges E = []"
  proof (rule ccontr)
    assume "cycle_edges E \<noteq> []"
    then have "hd (cycle_edges E) \<in> set (cycle_edges E)" by (rule hd_in_set)
    then have "hd (cycle_edges E) \<in> set E \<and> closes_cycle E (hd (cycle_edges E))"
      by (simp add: cycle_edges_def)
    then obtain e where e: "e \<in> set E" "closes_cycle E e" by blast
    obtain c t where ct: "e = (c, t)" by (cases e)
    from e ct have "(c, t) \<in> set E" and "t = c \<or> (t, c) \<in> (set E)\<^sup>+"
      by (auto simp: closes_cycle_def)
    then have "(c, c) \<in> (set E)\<^sup>+" by (auto intro: trancl_into_trancl2)
    with a show False by (simp add: acyclic_def)
  qed
qed

lemma break_cycles_acyclic: "acyclic (set (by_value (break_cycles g)))"
proof (induction g rule: break_cycles.induct)
  case (1 g)
  show ?case
  proof (cases "cycle_edges (by_value g)")
    case Nil
    then have "break_cycles g = g" by (subst break_cycles.simps) simp
    moreover from Nil have "acyclic (set (by_value g))"
      using cycle_edges_Nil_iff [of "by_value g"] by simp
    ultimately show ?thesis by simp
  next
    case (Cons e es)
    with 1 show ?thesis by (simp add: break_cycles.simps [of g])
  qed
qed

lemma break_cycles_fixed:
  assumes "acyclic (set (by_value g))"
  shows "break_cycles g = g"
proof -
  from assms have "cycle_edges (by_value g) = []" by (simp add: cycle_edges_Nil_iff)
  then show ?thesis by (subst break_cycles.simps) simp
qed

lemma break_cycles_edges:
  "nodes (break_cycles g) = nodes g
   \<and> (\<exists>rewritten. by_ref (break_cycles g) = by_ref g @ rewritten
        \<and> set (by_value g) = set (by_value (break_cycles g)) \<union> set rewritten
        \<and> length (by_value g) = length (by_value (break_cycles g)) + length rewritten
        \<and> (\<forall>e \<in> set rewritten. \<exists>E. set (by_value (break_cycles g)) \<subseteq> set E \<and> set E \<subseteq> set (by_value g) \<and> closes_cycle E e \<and> e \<in> set E))"
proof (induction g rule: break_cycles.induct)
  case (1 g)
  show ?case
  proof (cases "cycle_edges (by_value g)")
    case Nil
    then show ?thesis by (simp add: break_cycles.simps [of g])
  next
    case (Cons e es)
    let ?x = "select_edge e es"
    let ?g = "g\<lparr>by_value := remove1 ?x (by_value g), by_ref := by_ref g @ [?x]\<rparr>"
    have bc: "break_cycles g = break_cycles ?g" using Cons by (simp add: break_cycles.simps [of g])
    have "?x \<in> set (cycle_edges (by_value g))" using select_edge_mem [of e es] Cons by simp
    then have x: "?x \<in> set (by_value g)" "closes_cycle (by_value g) ?x"
      by (simp_all add: cycle_edges_def)
    from 1 [OF Cons] obtain rw where rw: "nodes (break_cycles ?g) = nodes ?g"
      "by_ref (break_cycles ?g) = by_ref ?g @ rw"
      "set (by_value ?g) = set (by_value (break_cycles ?g)) \<union> set rw"
      "length (by_value ?g) = length (by_value (break_cycles ?g)) + length rw"
      "\<forall>e \<in> set rw. \<exists>E. set (by_value (break_cycles ?g)) \<subseteq> set E \<and> set E \<subseteq> set (by_value ?g) \<and> closes_cycle E e \<and> e \<in> set E"
      by blast
    have sub: "set (remove1 ?x (by_value g)) \<subseteq> set (by_value g)" by (rule set_remove1_subset)
    have s: "set (by_value g) = insert ?x (set (remove1 ?x (by_value g)))"
    proof
      show "set (by_value g) \<subseteq> insert ?x (set (remove1 ?x (by_value g)))"
      proof
        fix y assume "y \<in> set (by_value g)"
        then show "y \<in> insert ?x (set (remove1 ?x (by_value g)))"
          by (cases "y = ?x") (simp_all add: in_set_remove1)
      qed
      show "insert ?x (set (remove1 ?x (by_value g))) \<subseteq> set (by_value g)"
        using x(1) sub by simp
    qed
    have l: "length (by_value g) = Suc (length (remove1 ?x (by_value g)))"
      using x(1) by (simp add: length_remove1) (cases "by_value g"; simp)
    have "by_ref (break_cycles g) = by_ref g @ (?x # rw)" using rw(2) bc by simp
    moreover have "set (by_value g) = set (by_value (break_cycles g)) \<union> set (?x # rw)"
      using rw(3) s bc by auto
    moreover have "length (by_value g) = length (by_value (break_cycles g)) + length (?x # rw)"
      using rw(4) l bc by simp
    moreover have "\<forall>e \<in> set (?x # rw). \<exists>E. set (by_value (break_cycles g)) \<subseteq> set E \<and> set E \<subseteq> set (by_value g) \<and> closes_cycle E e \<and> e \<in> set E"
    proof
      fix e' assume "e' \<in> set (?x # rw)"
      then consider "e' = ?x" | "e' \<in> set rw" by auto
      then show "\<exists>E. set (by_value (break_cycles g)) \<subseteq> set E \<and> set E \<subseteq> set (by_value g) \<and> closes_cycle E e' \<and> e' \<in> set E"
      proof cases
        case 1
        have "set (by_value (break_cycles g)) \<subseteq> set (by_value g)"
          using rw(3) sub bc by auto
        with x 1 show ?thesis by blast
      next
        case 2
        with rw(5) obtain E where "set (by_value (break_cycles ?g)) \<subseteq> set E"
          "set E \<subseteq> set (by_value ?g)" "closes_cycle E e'" "e' \<in> set E" by blast
        with sub bc show ?thesis by (intro exI [of _ E]) auto
      qed
    qed
    moreover have "nodes (break_cycles g) = nodes g" using rw(1) bc by simp
    ultimately show ?thesis by blast
  qed
qed

lemma walk_trancl: "walk a es b \<Longrightarrow> es \<noteq> [] \<Longrightarrow> set es \<subseteq> R \<Longrightarrow> (a, b) \<in> R\<^sup>+"
proof (induction es arbitrary: a)
  case Nil
  then show ?case by simp
next
  case (Cons e es)
  then have e: "(a, snd e) \<in> R" by (cases e) auto
  show ?case
  proof (cases "es = []")
    case True
    with Cons e show ?thesis by auto
  next
    case False
    with Cons have "(snd e, b) \<in> R\<^sup>+" by simp
    with e show ?thesis by (rule trancl_into_trancl2)
  qed
qed

lemma ready_exists:
  assumes "acyclic (set E)" and "pending \<noteq> []"
  shows "filter (ready E pending) pending \<noteq> []"
proof -
  have "wf ((set E)\<inverse>)" using assms(1) by (simp add: finite_acyclic_wf_converse)
  moreover from assms(2) have "hd pending \<in> set pending" by simp
  ultimately obtain z where z: "z \<in> set pending"
    "\<And>y. (y, z) \<in> (set E)\<inverse> \<Longrightarrow> y \<notin> set pending"
    by (rule wfE_min) blast
  have "ready E pending z"
    unfolding ready_def members_def list_all_iff using z(2) by auto
  with z(1) show ?thesis by (auto simp: filter_empty_conv)
qed

lemma emitted_before_Cons:
  "emitted_before t c (n # ord) = (if n = t then c \<in> set ord else emitted_before t c ord)"
  by (simp add: emitted_before_def)

lemma topo_order_Nil: "topo_order E [] = Some []"
  by (simp add: topo_order.simps)

lemma topo_order_step:
  "pending \<noteq> [] \<Longrightarrow> topo_order E pending =
     (case filter (ready E pending) pending of
        [] \<Rightarrow> None
      | n # _ \<Rightarrow> map_option ((#) n) (topo_order E (removeAll n pending)))"
  by (subst topo_order.simps) simp

lemma topo_order_Some:
  "topo_order E pending = Some ord \<Longrightarrow>
     set ord = set pending \<and> distinct ord
     \<and> (\<forall>e \<in> set E. fst e \<in> set pending \<and> snd e \<in> set pending
            \<longrightarrow> emitted_before (snd e) (fst e) ord)"
proof (induction E pending arbitrary: ord rule: topo_order.induct)
  case (1 E pending)
  show ?case
  proof (cases "pending = []")
    case True
    with "1.prems" show ?thesis by (auto simp: topo_order_Nil)
  next
    case False
    from "1.prems" False obtain n ns where f: "filter (ready E pending) pending = n # ns"
      by (cases "filter (ready E pending) pending") (simp_all add: topo_order_step)
    with "1.prems" False obtain ord' where o: "topo_order E (removeAll n pending) = Some ord'"
      "ord = n # ord'"
      by (auto simp: topo_order_step)
    from "1.IH" [OF False f o(1)] have IH: "set ord' = set (removeAll n pending)" "distinct ord'"
      "\<forall>e \<in> set E. fst e \<in> set (removeAll n pending) \<and> snd e \<in> set (removeAll n pending)
            \<longrightarrow> emitted_before (snd e) (fst e) ord'" by simp_all
    have "n \<in> set (filter (ready E pending) pending)" using f by simp
    then have n: "n \<in> set pending" "ready E pending n" by simp_all
    have "set ord = set pending" using IH(1) n(1) o(2) by auto
    moreover have "distinct ord" using IH(1,2) o(2) by simp
    moreover have "\<forall>e \<in> set E. fst e \<in> set pending \<and> snd e \<in> set pending
            \<longrightarrow> emitted_before (snd e) (fst e) ord"
    proof (intro ballI impI)
      fix e assume e: "e \<in> set E" "fst e \<in> set pending \<and> snd e \<in> set pending"
      have cn: "fst e \<noteq> n"
      proof
        assume "fst e = n"
        with e(1) have "snd e \<in> set (members E n)" by (auto simp: members_def)
        with n(2) have "snd e \<notin> set pending" by (simp add: ready_def list_all_iff)
        with e(2) show False by simp
      qed
      show "emitted_before (snd e) (fst e) ord"
      proof (cases "snd e = n")
        case True
        with cn e(2) IH(1) show ?thesis by (simp add: o(2) emitted_before_Cons)
      next
        case False
        with cn e IH(3) show ?thesis by (simp add: o(2) emitted_before_Cons)
      qed
    qed
    ultimately show ?thesis by blast
  qed
qed

lemma topo_order_total:
  "acyclic (set E) \<Longrightarrow> \<exists>ord. topo_order E pending = Some ord"
proof (induction E pending rule: topo_order.induct)
  case (1 E pending)
  show ?case
  proof (cases "pending = []")
    case True
    then show ?thesis by (simp add: topo_order_Nil)
  next
    case False
    from ready_exists [OF "1.prems" False] obtain n ns where
      f: "filter (ready E pending) pending = n # ns"
      by (cases "filter (ready E pending) pending") auto
    from "1.IH" [OF False f "1.prems"] obtain ord' where
      "topo_order E (removeAll n pending) = Some ord'" by blast
    with False f show ?thesis by (simp add: topo_order_step)
  qed
qed

lemma closes_cycle_mono:
  assumes "set E \<subseteq> set E'" and "closes_cycle E e"
  shows "closes_cycle E' e"
proof -
  have "(snd e, fst e) \<in> (set E')\<^sup>+" if "(snd e, fst e) \<in> (set E)\<^sup>+"
    using that assms(1) by (rule trancl_mono)
  with assms(2) show ?thesis by (auto simp: closes_cycle_def)
qed

lemma dependency_order_result:
  "\<exists>ord. dependency_order g = (break_cycles g, Some ord)
     \<and> set ord = set (nodes g) \<and> distinct ord
     \<and> (\<forall>e \<in> set (by_value (break_cycles g)).
            fst e \<in> set (nodes g) \<and> snd e \<in> set (nodes g)
            \<longrightarrow> emitted_before (snd e) (fst e) ord)"
proof -
  let ?g = "break_cycles g"
  have n: "nodes ?g = nodes g" using break_cycles_edges [of g] by blast
  from topo_order_total [OF break_cycles_acyclic, of g "nodes ?g"] obtain ord where
    o: "topo_order (by_value ?g) (nodes ?g) = Some ord" by blast
  from topo_order_Some [OF o] n o show ?thesis
    by (simp add: dependency_order_def Let_def)
qed

section \<open>Facts about the Schema Document Store\<close>















section \<open>Claims about the command line front end\<close>

text \<open>
  C1. A mapping file given as \<open>-namespaceMapping @file\<close> is read line by line: the
  namespace mapping after the option is the one before it, updated in order by every line
  of the file that yields an entry. A line yields the entry \<open>(uri, code)\<close> exactly when
  its trimmed text does not start with \<open>#\<close>, is \<open>uri=code\<close> with no \<open>=\<close> in \<open>code\<close>
  (so the split is at the final \<open>=\<close> and the URI may contain \<open>=\<close>), and both parts are
  non-empty; lines without \<open>=\<close> or with an empty side yield nothing.
\<close>

theorem mapping_file_entries:
  assumes "files e name = Some content"
  shows "parse_args e (''-namespaceMapping'' # (CHR ''@'' # name) # rest) s
           = parse_args e rest
               (s\<lparr>nsmapping := foldl spec_add_line (nsmapping s) (split_on CHR 0x0A content)\<rparr>)
         \<and> (\<forall>line uri code. spec_line_entry line = Some (uri, code) \<longleftrightarrow>
              (\<not> startsWith (trimmed line) CHR ''#'' \<and> trimmed line = uri @ CHR ''='' # code
               \<and> CHR ''='' \<notin> set code \<and> uri \<noteq> [] \<and> code \<noteq> []))"
proof -
  have "step e ''-namespaceMapping'' ((CHR ''@'' # name) # rest) s
      = Next rest (s\<lparr>nsmapping := foldl spec_add_line (nsmapping s) (split_on CHR 0x0A content)\<rparr>)"
    using assms
    by (simp add: step_namespaceMapping namespaceMapping_option_def startsWith_def
        read_mapping_file_lines)
  then show ?thesis using spec_line_entry_iff by simp
qed

text \<open>The example file has a comment, a URI containing \<open>=\<close> with blanks and a carriage
  return around it, lines with an empty side, a line without \<open>=\<close>, an empty line and a
  last line without line feed.\<close>

theorem mapping_file_entries_witness:
  "files example_env ''ns.map'' = Some example_mapping_file
   \<and> parse_args example_env [''-namespaceMapping'', ''@ns.map''] initial_locals
       = Continue (initial_locals\<lparr>nsmapping := [''http://a/?x=1'' \<mapsto> ''A'', ''urn:b'' \<mapsto> ''B'']\<rparr>)"
proof -
  have h: "files example_env ''ns.map'' = Some example_mapping_file"
    by (simp add: example_env_def)
  have "foldl spec_add_line Map.empty (split_on CHR 0x0A example_mapping_file)
      = [''http://a/?x=1'' \<mapsto> ''A'', ''urn:b'' \<mapsto> ''B'']"
    by (simp add: example_mapping_file_def spec_add_line_def spec_line_entry_def trimmed_def
        ascii_isspace_def startsWith_def before_final_def after_final_def)
  then show ?thesis
    using h mapping_file_entries [OF h, of "[]" initial_locals]
    by (simp add: initial_locals_def)
qed






text \<open>
  C9, as amended. An \<open>-optional-element-type\<close> value other than \<open>raw-pointer\<close>,
  \<open>boost-optional\<close> and \<open>std-optional\<close> is skipped without message or exit: no variable
  of \<open>main\<close> changes, so the strategy keeps the value it had (the default \<open>ENone\<close>
  unless an earlier argument set it), and the loop goes on with the next argument.
\<close>

theorem unknown_optional_element_type_ignored:
  assumes "optType \<noteq> ''raw-pointer''" and "optType \<noteq> ''boost-optional''"
    and "optType \<noteq> ''std-optional''"
  shows "step e ''-optional-element-type'' (optType # rest) s = Next rest s
         \<and> parse_args e (''-optional-element-type'' # optType # rest) s = parse_args e rest s"
  using assms by (simp add: step_optional_element_type optional_element_type_option_def)

theorem unknown_optional_element_type_ignored_witness:
  "''bogus'' \<noteq> ''raw-pointer'' \<and> ''bogus'' \<noteq> ''boost-optional'' \<and> ''bogus'' \<noteq> ''std-optional''
   \<and> parse_args example_env [''-optional-element-type'', ''bogus''] initial_locals
       = Continue initial_locals"
  using unknown_optional_element_type_ignored [of "''bogus''" example_env "[]" initial_locals]
  by simp

text \<open>C9 as stated fails: after a valid value, an unknown one leaves the strategy at
  the valid value and not at the default.\<close>

theorem optional_element_type_not_reset_counterexample:
  "main example_env [''-optional-element-type'', ''raw-pointer'',
       ''-optional-element-type'', ''bogus'', ''svc.wsdl'']
     = Started (configure example_env ''svc.wsdl''
         (initial_locals\<lparr>fileName := Some ''svc.wsdl'', optionalElementType := ERawPointer\<rparr>))
   \<and> settingsOptionalElementType (configure example_env ''svc.wsdl''
         (initial_locals\<lparr>fileName := Some ''svc.wsdl'', optionalElementType := ERawPointer\<rparr>))
       \<noteq> ENone"
  by (simp add: main_def step_def with_value_def optional_element_type_option_def
      initial_locals_def load_certificate_def configure_def)

text \<open>
  C10. A literal \<open>-namespaceMapping <mapping>\<close> argument (one not starting with \<open>@\<close>)
  always stores an entry: the mapping is split at its final \<open>=\<close>, and the pair is stored
  whether or not a part is empty; without any \<open>=\<close> the empty URI is mapped to the whole
  argument.
\<close>

theorem literal_mapping_always_stored:
  assumes "\<not> startsWith mapping CHR ''@''"
  shows "parse_args e (''-namespaceMapping'' # mapping # rest) s
           = parse_args e rest
               (s\<lparr>nsmapping := (nsmapping s)(fst (split_final_eq mapping) \<mapsto> snd (split_final_eq mapping))\<rparr>)
         \<and> (CHR ''='' \<in> set mapping \<longrightarrow>
              mapping = fst (split_final_eq mapping) @ CHR ''='' # snd (split_final_eq mapping)
              \<and> CHR ''='' \<notin> set (snd (split_final_eq mapping)))
         \<and> (CHR ''='' \<notin> set mapping \<longrightarrow> split_final_eq mapping = ([], mapping))"
proof -
  have "section_str mapping CHR ''='' 0 (- 2) = fst (split_final_eq mapping)"
    by (simp add: split_final_eq_def section_before_final section_absent)
  moreover have "section_str mapping CHR ''='' (- 1) (- 1) = snd (split_final_eq mapping)"
    by (simp add: split_final_eq_def section_after_final after_final_absent)
  ultimately have "step e ''-namespaceMapping'' (mapping # rest) s
      = Next rest (s\<lparr>nsmapping := (nsmapping s)(fst (split_final_eq mapping) \<mapsto> snd (split_final_eq mapping))\<rparr>)"
    using assms by (simp add: step_namespaceMapping namespaceMapping_option_def)
  then show ?thesis
    using final_decomposition [of "CHR ''=''" mapping] by (simp add: split_final_eq_def)
qed

text \<open>The argument \<open>=\<close> maps the empty URI to the empty code, while a mapping file
  holding the same text adds nothing.\<close>

theorem literal_mapping_always_stored_witness:
  "\<not> startsWith ''='' CHR ''@''
   \<and> parse_args example_env [''-namespaceMapping'', ''=''] initial_locals
       = Continue (initial_locals\<lparr>nsmapping := [[] \<mapsto> []]\<rparr>)
   \<and> read_mapping_file ''='' Map.empty = Map.empty"
proof -
  have h: "\<not> startsWith ''='' CHR ''@''" by (simp add: startsWith_def)
  have "split_final_eq ''='' = ([], [])"
    by (simp add: split_final_eq_def before_final_def after_final_def)
  moreover have "read_mapping_file ''='' Map.empty = Map.empty"
    by (simp add: read_mapping_file.simps trimmed_def ascii_isspace_def startsWith_def section_str_def)
  ultimately show ?thesis
    using h literal_mapping_always_stored [OF h, of example_env "[]" initial_locals]
    by (simp add: initial_locals_def)
qed

section \<open>Claims about the pipeline behind the front end\<close>

text \<open>
  C3. When the by-value graph has no cycle, the Dependency Orderer rewrites nothing and
  returns an order that lists every retained TypeNode exactly once, in which every type
  held by value comes before the type that holds it.
\<close>

theorem acyclic_order_is_topological:
  assumes "acyclic (set (by_value g))"
  shows "\<exists>ord. dependency_order g = (g, Some ord)
     \<and> set ord = set (nodes g) \<and> distinct ord
     \<and> (\<forall>e \<in> set (by_value g). fst e \<in> set (nodes g) \<and> snd e \<in> set (nodes g)
            \<longrightarrow> emitted_before (snd e) (fst e) ord)"
proof -
  have "break_cycles g = g" using assms by (rule break_cycles_fixed)
  with dependency_order_result [of g] show ?thesis by (simp only:)
qed

theorem acyclic_order_is_topological_witness:
  "acyclic (set (by_value example_acyclic_graph))
   \<and> dependency_order example_acyclic_graph = (example_acyclic_graph, Some [4, 3, 2, 1])
   \<and> emitted_before 3 1 [4, 3, 2, 1::nat]"
proof -
  have "cycle_edges (by_value example_acyclic_graph) = []" by code_simp
  then have h: "acyclic (set (by_value example_acyclic_graph))"
    by (simp only: cycle_edges_Nil_iff)
  have v: "topo_order (by_value example_acyclic_graph) (nodes example_acyclic_graph) = Some [4, 3, 2, 1]"
    by code_simp
  have b: "emitted_before 3 1 [4, 3, 2, 1::nat]" by (simp add: emitted_before_def)
  from acyclic_order_is_topological [OF h] obtain ord where
    "dependency_order example_acyclic_graph = (example_acyclic_graph, Some ord)" by blast
  moreover from this v have "ord = [4, 3, 2, 1]"
    by (auto simp: dependency_order_def Let_def)
  ultimately show ?thesis using h b by simp
qed

text \<open>
  C4. When the by-value graph has a cycle, the Dependency Orderer still returns: it
  rewrites at least one edge, only edges that close a cycle, from by value to by
  reference; every cycle of the input, the one-node cycle of a type that contains itself
  included, loses an edge; the by-value edges left are acyclic, and the order returned is
  a topological order of them.
\<close>

theorem cycles_are_broken:
  assumes "\<not> acyclic (set (by_value g))"
  shows "\<exists>g' ord rewritten. dependency_order g = (g', Some ord)
     \<and> acyclic (set (by_value g'))
     \<and> nodes g' = nodes g \<and> by_ref g' = by_ref g @ rewritten \<and> rewritten \<noteq> []
     \<and> set (by_value g) = set (by_value g') \<union> set rewritten
     \<and> length (by_value g) = length (by_value g') + length rewritten
     \<and> (\<forall>e \<in> set rewritten. closes_cycle (by_value g) e)
     \<and> (\<forall>c es. es \<noteq> [] \<and> walk c es c \<and> set es \<subseteq> set (by_value g)
            \<longrightarrow> (\<exists>e \<in> set es. e \<in> set rewritten \<and> e \<notin> set (by_value g')))
     \<and> (\<forall>c. (c, c) \<in> set (by_value g)
            \<longrightarrow> (c, c) \<in> set rewritten \<and> (c, c) \<notin> set (by_value g'))
     \<and> set ord = set (nodes g) \<and> distinct ord
     \<and> (\<forall>e \<in> set (by_value g'). fst e \<in> set (nodes g) \<and> snd e \<in> set (nodes g)
            \<longrightarrow> emitted_before (snd e) (fst e) ord)"
proof -
  let ?g = "break_cycles g"
  from dependency_order_result [of g] obtain ord where
    o: "dependency_order g = (?g, Some ord)" "set ord = set (nodes g)" "distinct ord"
    "\<forall>e \<in> set (by_value ?g). fst e \<in> set (nodes g) \<and> snd e \<in> set (nodes g)
            \<longrightarrow> emitted_before (snd e) (fst e) ord" by blast
  from break_cycles_edges [of g] obtain rw where
    rw: "nodes ?g = nodes g" "by_ref ?g = by_ref g @ rw"
    "set (by_value g) = set (by_value ?g) \<union> set rw"
    "length (by_value g) = length (by_value ?g) + length rw"
    "\<forall>e \<in> set rw. \<exists>E. set (by_value ?g) \<subseteq> set E \<and> set E \<subseteq> set (by_value g)
        \<and> closes_cycle E e \<and> e \<in> set E" by blast
  have ac: "acyclic (set (by_value ?g))" by (rule break_cycles_acyclic)
  have ne: "rw \<noteq> []"
  proof
    assume "rw = []"
    with rw(3) have "set (by_value g) = set (by_value ?g)" by simp
    with ac assms show False by simp
  qed
  have cc: "\<forall>e \<in> set rw. closes_cycle (by_value g) e"
  proof
    fix e assume "e \<in> set rw"
    with rw(5) obtain E where "set E \<subseteq> set (by_value g)" "closes_cycle E e" by blast
    then show "closes_cycle (by_value g) e" by (rule closes_cycle_mono)
  qed
  have cyc: "\<exists>e \<in> set es. e \<in> set rw \<and> e \<notin> set (by_value ?g)"
    if "es \<noteq> [] \<and> walk c es c \<and> set es \<subseteq> set (by_value g)" for c es
  proof (rule ccontr)
    assume n: "\<not> (\<exists>e \<in> set es. e \<in> set rw \<and> e \<notin> set (by_value ?g))"
    from that have es: "es \<noteq> []" "walk c es c" "set es \<subseteq> set (by_value g)" by simp_all
    have "set es \<subseteq> set (by_value ?g)"
    proof
      fix e assume e: "e \<in> set es"
      with es(3) rw(3) have "e \<in> set (by_value ?g) \<or> e \<in> set rw" by auto
      with n e show "e \<in> set (by_value ?g)" by auto
    qed
    with es(2,1) have "(c, c) \<in> (set (by_value ?g))\<^sup>+" by (rule walk_trancl)
    with ac show False by (simp add: acyclic_def)
  qed
  have self: "(c, c) \<in> set rw \<and> (c, c) \<notin> set (by_value ?g)"
    if "(c, c) \<in> set (by_value g)" for c
  proof -
    have "[(c, c)] \<noteq> [] \<and> walk c [(c, c)] c \<and> set [(c, c)] \<subseteq> set (by_value g)"
      using that by simp
    from cyc [OF this] show ?thesis by simp
  qed
  have "dependency_order g = (?g, Some ord)
     \<and> acyclic (set (by_value ?g))
     \<and> nodes ?g = nodes g \<and> by_ref ?g = by_ref g @ rw \<and> rw \<noteq> []
     \<and> set (by_value g) = set (by_value ?g) \<union> set rw
     \<and> length (by_value g) = length (by_value ?g) + length rw
     \<and> (\<forall>e \<in> set rw. closes_cycle (by_value g) e)
     \<and> (\<forall>c es. es \<noteq> [] \<and> walk c es c \<and> set es \<subseteq> set (by_value g)
            \<longrightarrow> (\<exists>e \<in> set es. e \<in> set rw \<and> e \<notin> set (by_value ?g)))
     \<and> (\<forall>c. (c, c) \<in> set (by_value g)
            \<longrightarrow> (c, c) \<in> set rw \<and> (c, c) \<notin> set (by_value ?g))
     \<and> set ord = set (nodes g) \<and> distinct ord
     \<and> (\<forall>e \<in> set (by_value ?g). fst e \<in> set (nodes g) \<and> snd e \<in> set (nodes g)
            \<longrightarrow> emitted_before (snd e) (fst e) ord)"
    using o rw(1,2,3,4) ac ne cc cyc self by (intro conjI allI impI) (assumption | blast)+
  then show ?thesis by blast
qed

theorem cycles_are_broken_witness:
  "\<not> acyclic (set (by_value example_graph))
   \<and> dependency_order example_graph
       = (\<lparr> nodes = [1, 2, 3, 4], by_value = [(2, 3), (3, 1), (3, 4)], by_ref = [(1, 2), (4, 4)] \<rparr>,
          Some [1, 4, 3, 2])"
proof -
  have "cycle_edges (by_value example_graph) = [(1, 2), (2, 3), (3, 1), (4, 4)]" by code_simp
  then have "cycle_edges (by_value example_graph) \<noteq> []" by simp
  with cycle_edges_Nil_iff [of "by_value example_graph"]
  have h: "\<not> acyclic (set (by_value example_graph))" by blast
  have v: "dependency_order example_graph
       = (\<lparr> nodes = [1, 2, 3, 4], by_value = [(2, 3), (3, 1), (3, 4)], by_ref = [(1, 2), (4, 4)] \<rparr>,
          Some [1, 4, 3, 2])"
    by code_simp
  from cycles_are_broken [OF h] obtain g' ord where
    "dependency_order example_graph = (g', Some ord)" by blast
  with v h show ?thesis by simp
qed



end
